theory Spec2Isabelle
  imports Main
begin

section \<open>Python string primitives used by the script\<close>

text \<open>
  The script \<^verbatim>\<open>liftover_intropolis_hg38_to_hg19.py\<close> is Python 2: a \<^verbatim>\<open>str\<close> is a byte
  string, modelled as \<^typ>\<open>string\<close>. A text file is modelled as the list of its lines,
  each without its line terminator; \<^verbatim>\<open>print\<close> appends one line to the output.
\<close>

definition TAB :: char where
  "TAB = CHR 0x09"

definition NL :: char where
  "NL = CHR 0x0A"

definition is_space :: "char \<Rightarrow> bool" where
  \<comment> \<open>the bytes removed by \<^verbatim>\<open>str.strip()\<close>: space, tab, newline, carriage return, VT, FF\<close>
  "is_space c \<longleftrightarrow>
     c = CHR '' '' \<or> c = CHR 0x09 \<or> c = CHR 0x0A \<or> c = CHR 0x0D \<or> c = CHR 0x0B \<or> c = CHR 0x0C"

definition strip :: "string \<Rightarrow> string" where
  \<comment> \<open>\<^verbatim>\<open>s.strip()\<close>\<close>
  "strip s = rev (dropWhile is_space (rev (dropWhile is_space s)))"

fun split_on :: "char \<Rightarrow> string \<Rightarrow> string list" where
  \<comment> \<open>\<^verbatim>\<open>s.split(d)\<close> for a one-byte separator; the empty string gives one empty token\<close>
  "split_on d [] = [ [] ]"
| "split_on d (c # cs) =
     (if c = d then [] # split_on d cs
      else (case split_on d cs of [] \<Rightarrow> [ [c] ] | t # ts \<Rightarrow> (c # t) # ts))"

fun join :: "char \<Rightarrow> string list \<Rightarrow> string" where
  \<comment> \<open>\<^verbatim>\<open>d.join(tokens)\<close>\<close>
  "join d [] = []"
| "join d [t] = t"
| "join d (t # ts) = t @ d # join d ts"

definition readline :: "string list \<Rightarrow> string \<times> string list" where
  \<comment> \<open>\<^verbatim>\<open>stream.readline()\<close>: the next line with its terminator and the rest of the stream,
      or the empty string at the end of the file\<close>
  "readline stream = (case stream of [] \<Rightarrow> ([], []) | l # rest \<Rightarrow> (l @ [NL], rest))"

definition NA4 :: "string list" where
  \<comment> \<open>\<^verbatim>\<open>['NA'] * 4\<close>\<close>
  "NA4 = replicate 4 ''NA''"

section \<open>The merge-join loop (lines 128-162)\<close>

function merge_loop :: "string list \<Rightarrow> string list \<Rightarrow> string list \<Rightarrow> string list" where
  "merge_loop junction_1_tokens junction_2_tokens sorted_stream =
     (if take 4 junction_1_tokens = take 4 junction_2_tokens then
        (let hg19_tokens = (if length junction_1_tokens > length junction_2_tokens
                            then junction_1_tokens else junction_2_tokens);
             hg38_tokens = (if length junction_1_tokens > length junction_2_tokens
                            then junction_2_tokens else junction_1_tokens);
             printed = join TAB (hg38_tokens @ take 4 (drop 4 hg19_tokens));
             line_1 = strip (fst (readline sorted_stream));
             stream_1 = snd (readline sorted_stream)
         in if line_1 = [] then [printed]
            else
              (let junction_1_tokens' = split_on TAB line_1;
                   line_2 = strip (fst (readline stream_1));
                   stream_2 = snd (readline stream_1)
               in if line_2 = [] then [printed, join TAB (junction_1_tokens' @ NA4)]
                  else printed # merge_loop junction_1_tokens' (split_on TAB line_2) stream_2))
      else
        (let printed = join TAB (junction_1_tokens @ NA4);
             junction_1_tokens' = junction_2_tokens;
             line_2 = strip (fst (readline sorted_stream));
             stream_2 = snd (readline sorted_stream)
         in if line_2 = [] then [printed, join TAB (junction_1_tokens' @ NA4)]
            else printed # merge_loop junction_1_tokens' (split_on TAB line_2) stream_2))"
  by pat_completeness auto
termination
  by (relation "measure (\<lambda>(j1, j2, s). length s)")
     (auto simp: readline_def strip_def split: list.splits)

definition merge_join :: "string list \<Rightarrow> string list" where
  \<comment> \<open>the two initial reads (lines 129-130) followed by the loop\<close>
  "merge_join sorted_stream =
     (let junction_1_tokens = split_on TAB (strip (fst (readline sorted_stream)));
          stream_1 = snd (readline sorted_stream);
          junction_2_tokens = split_on TAB (strip (fst (readline stream_1)));
          stream_2 = snd (readline stream_1)
      in merge_loop junction_1_tokens junction_2_tokens stream_2)"

section \<open>Integers as text\<close>

datatype py_error = IndexError | ValueError | IOError | CalledProcessError

definition digit_char :: "nat \<Rightarrow> char" where
  "digit_char d = ''0123456789'' ! d"

fun nat_str :: "nat \<Rightarrow> string" where
  "nat_str n = (if n < 10 then [digit_char n] else nat_str (n div 10) @ [digit_char (n mod 10)])"

definition py_str :: "int \<Rightarrow> string" where
  \<comment> \<open>\<^verbatim>\<open>str(n)\<close> of an integer: decimal digits, with a leading minus sign when negative\<close>
  "py_str n = (if n < 0 then CHR ''-'' # nat_str (nat (- n)) else nat_str (nat n))"

definition digit_val :: "char \<Rightarrow> nat option" where
  \<comment> \<open>the value of a decimal digit, \<open>None\<close> for any other byte\<close>
  "digit_val = map_of
     [(CHR ''0'', 0), (CHR ''1'', 1), (CHR ''2'', 2), (CHR ''3'', 3), (CHR ''4'', 4),
      (CHR ''5'', 5), (CHR ''6'', 6), (CHR ''7'', 7), (CHR ''8'', 8), (CHR ''9'', 9)]"

fun digits_val :: "nat \<Rightarrow> string \<Rightarrow> nat option" where
  "digits_val acc [] = Some acc"
| "digits_val acc (c # cs) =
     (case digit_val c of None \<Rightarrow> None | Some d \<Rightarrow> digits_val (10 * acc + d) cs)"

definition py_int :: "string \<Rightarrow> int option" where
  \<comment> \<open>\<^verbatim>\<open>int(s)\<close> of a string: surrounding whitespace is ignored, then an optional sign and
      one or more decimal digits; anything else raises ValueError (here \<open>None\<close>)\<close>
  "py_int s =
     (case strip s of
        [] \<Rightarrow> None
      | c # cs \<Rightarrow>
          if c = CHR ''-'' then (if cs = [] then None else map_option (\<lambda>n. - int n) (digits_val 0 cs))
          else if c = CHR ''+'' then (if cs = [] then None else map_option int (digits_val 0 cs))
          else map_option int (digits_val 0 (c # cs)))"

section \<open>The record normalizer (lines 77-87)\<close>

definition file_lines :: "string list \<Rightarrow> string list" where
  \<comment> \<open>iterating over a file yields each line with its terminator\<close>
  "file_lines stream = map (\<lambda>l. l @ [NL]) stream"

definition bed_fields :: "string list \<Rightarrow> py_error + (string \<times> string \<times> string \<times> string)" where
  \<comment> \<open>lines 79-82; the tuple is evaluated left to right, \<^verbatim>\<open>tokens\<close> is never empty\<close>
  "bed_fields tokens =
     (if length tokens < 2 then Inl IndexError
      else case py_int (tokens ! 1) of
             None \<Rightarrow> Inl ValueError
           | Some n \<Rightarrow>
               if length tokens < 4 then Inl IndexError
               else Inr (tokens ! 0, py_str (n - 1), tokens ! 2, tokens ! 3))"

definition junction_name :: "nat \<Rightarrow> string \<times> string \<times> string \<times> string \<Rightarrow> string" where
  \<comment> \<open>line 84\<close>
  "junction_name i f =
     (case f of (chrom, start, end, strand) \<Rightarrow>
        join (CHR '';'') [py_str (int i), chrom, start, end, strand])"

definition bed_line :: "nat \<Rightarrow> string \<times> string \<times> string \<times> string \<Rightarrow> string" where
  \<comment> \<open>lines 85-87: \<^verbatim>\<open>'{}\t{}\t{}\tinfo_{}\t1\t{}'.format(chrom, start, end, junction_name, strand)\<close>\<close>
  "bed_line i f =
     (case f of (chrom, start, end, strand) \<Rightarrow>
        chrom @ [TAB] @ start @ [TAB] @ end @ [TAB] @ ''info_'' @ junction_name i f
          @ [TAB] @ ''1'' @ [TAB] @ strand)"

definition normalize_line :: "nat \<Rightarrow> string \<Rightarrow> py_error + string" where
  "normalize_line i line =
     (let tokens = split_on TAB (strip line)
      in case bed_fields tokens of Inl e \<Rightarrow> Inl e | Inr f \<Rightarrow> Inr (bed_line i f))"

fun normalize_lines :: "nat \<Rightarrow> string list \<Rightarrow> py_error + string list" where
  \<comment> \<open>the \<^verbatim>\<open>enumerate\<close> loop: the first exception ends the run\<close>
  "normalize_lines i [] = Inr []"
| "normalize_lines i (line # rest) =
     (case normalize_line i line of
        Inl e \<Rightarrow> Inl e
      | Inr b \<Rightarrow> (case normalize_lines (Suc i) rest of Inl e \<Rightarrow> Inl e | Inr bs \<Rightarrow> Inr (b # bs)))"

section \<open>The stream merger (lines 104-121)\<close>

definition lift_row :: "string \<Rightarrow> py_error + string" where
  \<comment> \<open>lines 108-118; an unpacking of the wrong length raises ValueError\<close>
  "lift_row line =
     (case take 6 (split_on TAB (strip line)) of
        [chrom, start, end, name, score, strand] \<Rightarrow>
          (case split_on (CHR '';'') name of
             [ordinal, hg38_chrom, hg38_start, hg38_end, hg38_strand] \<Rightarrow>
               (case py_int hg38_start of
                  None \<Rightarrow> Inl ValueError
                | Some hg38_start' \<Rightarrow>
                    (case py_int start of
                       None \<Rightarrow> Inl ValueError
                     | Some start' \<Rightarrow>
                         Inr (join TAB [hg38_chrom, py_str (hg38_start' + 1), hg38_end,
                                        hg38_strand, chrom, py_str (start' + 1), end, strand,
                                        ''FAKE''])))
           | _ \<Rightarrow> Inl ValueError)
      | _ \<Rightarrow> Inl ValueError)"

fun lift_rows :: "string list \<Rightarrow> py_error + string list" where
  "lift_rows [] = Inr []"
| "lift_rows (line # rest) =
     (case lift_row line of
        Inl e \<Rightarrow> Inl e
      | Inr r \<Rightarrow> (case lift_rows rest of Inl e \<Rightarrow> Inl e | Inr rs \<Rightarrow> Inr (r # rs)))"

section \<open>The whole run (lines 70-162)\<close>

text \<open>
  The two external programs are parameters. \<open>liftover\<close> receives the normalized file and
  returns its exit status together with the mapped file it left behind, if any;
  \<open>sort_cmd\<close> receives the combined file and returns the exit status of the shell
  pipeline together with the sorted file. The result of a run is the exception that ended
  it or the lines printed to standard output.
\<close>

definition main ::
  "(string list \<Rightarrow> int \<times> string list option) \<Rightarrow> (string list \<Rightarrow> int \<times> string list)
     \<Rightarrow> string list \<Rightarrow> py_error + string list" where
  "main liftover sort_cmd intropolis =
     (case normalize_lines 0 (file_lines intropolis) of
        Inl e \<Rightarrow> Inl e
      | Inr temp_hg38 \<Rightarrow>
          (let liftover_process = fst (liftover temp_hg38);
               temp_hg19 = snd (liftover temp_hg38)
           in case temp_hg19 of
                None \<Rightarrow> Inl IOError
              | Some hg19_stream \<Rightarrow>
                  (case lift_rows (file_lines hg19_stream) of
                     Inl e \<Rightarrow> Inl e
                   | Inr lifted \<Rightarrow>
                       (let to_sort = lifted @ intropolis;
                            status = fst (sort_cmd to_sort);
                            sorted_together = snd (sort_cmd to_sort)
                        in if status \<noteq> 0 then Inl CalledProcessError
                           else Inr (merge_join sorted_together)))))"

section \<open>Well-formed sorted streams\<close>

definition field_ok :: "string \<Rightarrow> bool" where
  \<comment> \<open>a field value: not empty and free of whitespace (so also of tabs and newlines)\<close>
  "field_ok t \<longleftrightarrow> t \<noteq> [] \<and> (\<forall>c \<in> set t. \<not> is_space c)"

definition row_ok :: "string list \<Rightarrow> bool" where
  "row_ok ts \<longleftrightarrow> ts \<noteq> [] \<and> (\<forall>t \<in> set ts. field_ok t)"

text \<open>
  What one junction contributes to the sorted stream: its origin row (8 fields), possibly
  a lift row (9 fields, the same first four), and which of the two the sort placed first.
\<close>

datatype junction = Junction (origin: "string list") (lift: "string list option") (lift_first: bool)

definition key :: "junction \<Rightarrow> string list" where
  "key j = take 4 (origin j)"

definition rows_of :: "junction \<Rightarrow> string list list" where
  "rows_of j =
     (case lift j of
        None \<Rightarrow> [origin j]
      | Some l \<Rightarrow> if lift_first j then [l, origin j] else [origin j, l])"

definition expected :: "junction \<Rightarrow> string list" where
  \<comment> \<open>the output row the junction should get, as fields\<close>
  "expected j = origin j @ (case lift j of None \<Rightarrow> NA4 | Some l \<Rightarrow> take 4 (drop 4 l))"

definition junction_ok :: "junction \<Rightarrow> bool" where
  "junction_ok j \<longleftrightarrow>
     row_ok (origin j) \<and> length (origin j) = 8 \<and>
     (case lift j of
        None \<Rightarrow> True
      | Some l \<Rightarrow> row_ok l \<and> length l = 9 \<and> take 4 l = take 4 (origin j))"

definition stream_ok :: "junction list \<Rightarrow> bool" where
  \<comment> \<open>every junction well formed, and no two junctions with the same 4-field key\<close>
  "stream_ok js \<longleftrightarrow> (\<forall>j \<in> set js. junction_ok j) \<and> distinct (map key js)"

definition sorted_rows :: "junction list \<Rightarrow> string list list" where
  "sorted_rows js = concat (map rows_of js)"

definition sorted_lines :: "junction list \<Rightarrow> string list" where
  \<comment> \<open>the sorted stream in which each junction's rows are adjacent\<close>
  "sorted_lines js = map (join TAB) (sorted_rows js)"

definition fields :: "string \<Rightarrow> string list" where
  \<comment> \<open>the fields of a printed row\<close>
  "fields row = split_on TAB row"

definition is_blank :: "string \<Rightarrow> bool" where
  \<comment> \<open>a line that is empty once stripped\<close>
  "is_blank l \<longleftrightarrow> (\<forall>c \<in> set l. is_space c)"

definition fresh_reads :: "string list list \<Rightarrow> string list" where
  \<comment> \<open>what the loop does from a point where both buffers are to be refilled from the
      remaining rows: stop, print a single leftover row, or iterate\<close>
  "fresh_reads rows =
     (case rows of
        [] \<Rightarrow> []
      | [x] \<Rightarrow> [join TAB (x @ NA4)]
      | x # y # rest \<Rightarrow> merge_loop x y (map (join TAB) rest))"

definition row_tokens :: "string \<Rightarrow> string list" where
  \<comment> \<open>\<^verbatim>\<open>sorted_stream.readline().strip().split('\t')\<close> for one line of the stream\<close>
  "row_tokens line = split_on TAB (strip (line @ [NL]))"

definition rows_read :: "string list \<Rightarrow> string list list" where
  \<comment> \<open>the rows of a stream: its lines up to the first blank one, each stripped and
      split at the tabs\<close>
  "rows_read stream = map row_tokens (takeWhile (\<lambda>l. \<not> is_blank l) stream)"

fun walk_rows :: "string list list \<Rightarrow> string list list" where
  \<comment> \<open>the walk over the rows in words: two neighbours with the same first four fields
      give one row and are both consumed, any other row is followed by four NA\<close>
  "walk_rows (a # b # rest) =
     (if take 4 a = take 4 b
      then ((if length a > length b then b else a)
             @ take 4 (drop 4 (if length a > length b then a else b))) # walk_rows rest
      else (a @ NA4) # walk_rows (b # rest))"
| "walk_rows [a] = [a @ NA4]"
| "walk_rows [] = []"

definition rejected :: "string \<Rightarrow> bool" where
  \<comment> \<open>an input line with fewer than four fields or whose second field is no integer\<close>
  "rejected line \<longleftrightarrow>
     length (split_on TAB (strip line)) < 4 \<or> py_int (split_on TAB (strip line) ! 1) = None"

definition normalized :: "nat \<Rightarrow> string \<Rightarrow> string" where
  \<comment> \<open>the normalized line of the record with ordinal \<open>k\<close>, from the first four fields of
      the stripped line: chrom, start - 1, end, name, 1, strand\<close>
  "normalized k line =
     (let t = split_on TAB (strip line);
          start = (case py_int (t ! 1) of None \<Rightarrow> [] | Some n \<Rightarrow> py_str (n - 1))
      in join TAB [t ! 0, start, t ! 2,
                   ''info_'' @ join (CHR '';'') [py_str (int k), t ! 0, start, t ! 2, t ! 3],
                   ''1'', t ! 3])"

section \<open>Example streams\<close>

definition example_origin_1 :: "string list" where
  "example_origin_1 = [''chr1'', ''100'', ''200'', ''+'', ''GT'', ''AG'', ''0,1'', ''5,10'']"

definition example_lift_1 :: "string list" where
  "example_lift_1 = [''chr1'', ''100'', ''200'', ''+'', ''chr1'', ''50'', ''150'', ''+'', ''FAKE'']"

definition example_origin_2 :: "string list" where
  "example_origin_2 = [''chr1'', ''100'', ''200'', ''-'', ''CT'', ''AC'', ''2'', ''7'']"

definition example_lift_2 :: "string list" where
  "example_lift_2 = [''chr1'', ''100'', ''200'', ''-'', ''chr1'', ''50'', ''150'', ''-'', ''FAKE'']"

definition example_origin_3 :: "string list" where
  "example_origin_3 = [''chr2'', ''7'', ''90'', ''+'', ''GC'', ''AG'', ''4,5,6'', ''1,1,3'']"

definition example_junctions :: "junction list" where
  "example_junctions =
     [Junction example_origin_1 (Some example_lift_1) True,
      Junction example_origin_3 None False,
      Junction example_origin_2 (Some example_lift_2) False]"

declare merge_loop.simps [simp del]
declare nat_str.simps [simp del]

section \<open>Splitting, joining and stripping\<close>

lemma split_on_not_Nil: "split_on d s \<noteq> []"
  by (induction s) (auto split: list.splits)

lemma split_on_no_sep: "d \<notin> set t \<Longrightarrow> split_on d t = [t]"
  by (induction t) auto

lemma split_on_append_sep: "d \<notin> set t \<Longrightarrow> split_on d (t @ d # rest) = t # split_on d rest"
  by (induction t) auto

lemma split_on_join:
  "ts \<noteq> [] \<Longrightarrow> \<forall>t \<in> set ts. d \<notin> set t \<Longrightarrow> split_on d (join d ts) = ts"
proof (induction d ts rule: join.induct)
  case (1 d)
  then show ?case by simp
next
  case (2 d t)
  then show ?case by (simp add: split_on_no_sep)
next
  case (3 d t v va)
  then show ?case by (simp add: split_on_append_sep)
qed

lemma strip_clean:
  assumes "s \<noteq> []" "\<not> is_space (hd s)" "\<not> is_space (last s)"
  shows "strip s = s"
proof -
  from assms obtain c cs where s: "s = c # cs" by (cases s) auto
  with assms have d1: "dropWhile is_space s = s" by simp
  from assms obtain bs b where r: "s = bs @ [b]" by (cases s rule: rev_cases) auto
  with assms have "dropWhile is_space (rev s) = rev s" by simp
  with d1 show ?thesis by (simp add: strip_def)
qed

lemma strip_line:
  assumes "s \<noteq> []" "\<not> is_space (hd s)" "\<not> is_space (last s)"
  shows "strip (s @ [NL]) = s"
proof -
  from assms obtain c cs where s: "s = c # cs" by (cases s) auto
  with assms have d1: "dropWhile is_space (s @ [NL]) = s @ [NL]" by simp
  from assms obtain bs b where r: "s = bs @ [b]" by (cases s rule: rev_cases) auto
  with assms have "dropWhile is_space (rev (s @ [NL])) = rev s" by (simp add: is_space_def NL_def)
  with d1 show ?thesis by (simp add: strip_def)
qed

lemma join_Cons_ne: "join d (t # ts) = t @ (if ts = [] then [] else d # join d ts)"
  by (cases ts) auto

lemma hd_join: "t \<noteq> [] \<Longrightarrow> hd (join d (t # ts)) = hd t"
  by (simp add: join_Cons_ne)

lemma join_last_not_Nil: "ts \<noteq> [] \<Longrightarrow> last ts \<noteq> [] \<Longrightarrow> join d ts \<noteq> []"
  by (induction d ts rule: join.induct) auto

lemma last_join: "ts \<noteq> [] \<Longrightarrow> last ts \<noteq> [] \<Longrightarrow> last (join d ts) = last (last ts)"
  by (induction d ts rule: join.induct) (auto simp: join_last_not_Nil)

lemma join_not_Nil: "ts \<noteq> [] \<Longrightarrow> hd ts \<noteq> [] \<Longrightarrow> join d ts \<noteq> []"
  by (cases ts) (auto simp: join_Cons_ne)

lemma field_ok_no_tab: "field_ok t \<Longrightarrow> TAB \<notin> set t"
  by (auto simp: field_ok_def is_space_def TAB_def)

lemma row_ok_line:
  assumes "row_ok ts"
  shows "strip (join TAB ts @ [NL]) = join TAB ts" and "join TAB ts \<noteq> []"
    and "split_on TAB (join TAB ts) = ts"
proof -
  from assms obtain t ts' where ts: "ts = t # ts'" by (cases ts) (auto simp: row_ok_def)
  from assms ts have t: "t \<noteq> []" "\<not> is_space (hd t)" by (auto simp: row_ok_def field_ok_def)
  from assms have "field_ok (last ts)" by (simp add: row_ok_def)
  then have l: "last ts \<noteq> []" "\<not> is_space (last (last ts))"
    by (simp_all add: field_ok_def)
  show ne: "join TAB ts \<noteq> []" using t ts by (simp add: join_not_Nil)
  have h: "\<not> is_space (hd (join TAB ts))" using t ts by (simp add: hd_join)
  have e: "\<not> is_space (last (join TAB ts))" using l ts by (simp add: last_join)
  from ne h e show "strip (join TAB ts @ [NL]) = join TAB ts" by (rule strip_line)
  show "split_on TAB (join TAB ts) = ts"
    using assms by (intro split_on_join) (auto simp: row_ok_def field_ok_no_tab)
qed

section \<open>One iteration of the loop\<close>

lemma readline_Nil: "readline [] = ([], [])"
  by (simp add: readline_def)

lemma readline_Cons: "readline (l # rest) = (l @ [NL], rest)"
  by (simp add: readline_def)

lemma strip_Nil: "strip [] = []"
  by (simp add: strip_def)

lemma merge_loop_pair:
  assumes "take 4 a = take 4 b" and "\<forall>r \<in> set rest. row_ok r"
  shows "merge_loop a b (map (join TAB) rest) =
           join TAB ((if length a > length b then b else a)
                      @ take 4 (drop 4 (if length a > length b then a else b)))
           # fresh_reads rest"
proof (cases rest)
  case Nil
  then show ?thesis
    using assms by (subst merge_loop.simps) (simp add: readline_Nil strip_Nil fresh_reads_def)
next
  case (Cons x rest')
  note c1 = Cons
  with assms have x: "row_ok x" by simp
  show ?thesis
  proof (cases rest')
    case Nil
    then show ?thesis
      using assms c1 x
      by (subst merge_loop.simps)
         (simp add: readline_Nil readline_Cons strip_Nil fresh_reads_def row_ok_line Let_def)
  next
    case (Cons y rest'')
    with assms c1 have y: "row_ok y" by simp
    show ?thesis
      using assms c1 Cons x y
      by (subst merge_loop.simps)
         (simp add: readline_Cons fresh_reads_def row_ok_line Let_def)
  qed
qed

lemma merge_loop_unpaired:
  assumes "take 4 a \<noteq> take 4 b" and "\<forall>r \<in> set rest. row_ok r"
  shows "merge_loop a b (map (join TAB) rest) = join TAB (a @ NA4) # fresh_reads (b # rest)"
proof (cases rest)
  case Nil
  then show ?thesis
    using assms by (subst merge_loop.simps) (simp add: readline_Nil strip_Nil fresh_reads_def)
next
  case (Cons x rest')
  with assms have x: "row_ok x" by simp
  show ?thesis
    using assms Cons x
    by (subst merge_loop.simps) (simp add: readline_Cons fresh_reads_def row_ok_line Let_def)
qed

section \<open>The loop on a well-formed sorted stream\<close>

lemma rows_of_ok: "junction_ok j \<Longrightarrow> \<forall>r \<in> set (rows_of j). row_ok r"
  by (auto simp: junction_ok_def rows_of_def split: option.splits)

lemma sorted_rows_ok: "\<forall>j \<in> set js. junction_ok j \<Longrightarrow> \<forall>r \<in> set (sorted_rows js). row_ok r"
  by (auto simp: sorted_rows_def dest: rows_of_ok)

lemma sorted_rows_Cons: "sorted_rows (j # js) = rows_of j @ sorted_rows js"
  by (simp add: sorted_rows_def)

lemma hd_rows_key: "junction_ok j \<Longrightarrow> take 4 (hd (rows_of j)) = key j"
  by (auto simp: junction_ok_def rows_of_def key_def split: option.splits)

lemma rows_of_not_Nil: "rows_of j \<noteq> []"
  by (simp add: rows_of_def split: option.splits)

lemma fresh_reads_junctions:
  "stream_ok js \<Longrightarrow> fresh_reads (sorted_rows js) = map (\<lambda>j. join TAB (expected j)) js"
proof (induction js)
  case Nil
  then show ?case by (simp add: sorted_rows_def fresh_reads_def)
next
  case (Cons j js)
  then have ok: "junction_ok j" and oks: "\<forall>j \<in> set js. junction_ok j"
    and fresh: "key j \<notin> key ` set js" and rest: "stream_ok js"
    by (auto simp: stream_ok_def)
  from oks have rows: "\<forall>r \<in> set (sorted_rows js). row_ok r" by (rule sorted_rows_ok)
  from Cons.IH rest have IH: "fresh_reads (sorted_rows js) = map (\<lambda>j. join TAB (expected j)) js" .
  show ?case
  proof (cases "lift j")
    case None
    then have rj: "rows_of j = [origin j]" and ej: "expected j = origin j @ NA4"
      by (simp_all add: rows_of_def expected_def)
    show ?thesis
    proof (cases js)
      case Nil
      then show ?thesis by (simp add: sorted_rows_def rj ej fresh_reads_def)
    next
      case (Cons j' js')
      obtain x xs where x: "rows_of j' = x # xs" using rows_of_not_Nil [of j'] by (cases "rows_of j'") auto
      from oks Cons have "take 4 (hd (rows_of j')) = key j'" by (simp add: hd_rows_key)
      with x have kx: "take 4 x = key j'" by simp
      from fresh Cons have "key j \<noteq> key j'" by auto
      with kx have diff: "take 4 (origin j) \<noteq> take 4 x" by (simp add: key_def)
      have sr: "sorted_rows js = x # (xs @ sorted_rows js')"
        using Cons x by (simp add: sorted_rows_Cons)
      from rows sr have rr: "\<forall>r \<in> set (xs @ sorted_rows js'). row_ok r" by simp
      have "fresh_reads (sorted_rows (j # js)) = merge_loop (origin j) x (map (join TAB) (xs @ sorted_rows js'))"
        by (simp add: sorted_rows_Cons rj sr fresh_reads_def)
      also have "\<dots> = join TAB (origin j @ NA4) # fresh_reads (x # (xs @ sorted_rows js'))"
        using diff rr by (rule merge_loop_unpaired)
      finally show ?thesis using IH sr ej by simp
    qed
  next
    case (Some l)
    with ok have l: "length l = 9" "length (origin j) = 8" "take 4 l = take 4 (origin j)"
      by (simp_all add: junction_ok_def)
    from Some have ej: "expected j = origin j @ take 4 (drop 4 l)" by (simp add: expected_def)
    show ?thesis
    proof (cases "lift_first j")
      case True
      with Some have rj: "rows_of j = [l, origin j]" by (simp add: rows_of_def)
      have "fresh_reads (sorted_rows (j # js)) = merge_loop l (origin j) (map (join TAB) (sorted_rows js))"
        by (simp add: sorted_rows_Cons rj fresh_reads_def)
      also have "\<dots> = join TAB (origin j @ take 4 (drop 4 l)) # fresh_reads (sorted_rows js)"
        using merge_loop_pair [OF l(3) rows] l by simp
      finally show ?thesis using IH ej by simp
    next
      case False
      with Some have rj: "rows_of j = [origin j, l]" by (simp add: rows_of_def)
      have "fresh_reads (sorted_rows (j # js)) = merge_loop (origin j) l (map (join TAB) (sorted_rows js))"
        by (simp add: sorted_rows_Cons rj fresh_reads_def)
      also have "\<dots> = join TAB (origin j @ take 4 (drop 4 l)) # fresh_reads (sorted_rows js)"
        using merge_loop_pair [OF l(3) [symmetric] rows] l by simp
      finally show ?thesis using IH ej by simp
    qed
  qed
qed

lemma merge_join_single:
  assumes "row_ok x"
  shows "merge_join [join TAB x] = [join TAB (x @ NA4), join TAB ([] # NA4)]"
proof -
  from assms obtain t ts where x: "x = t # ts" and t: "t \<noteq> []"
    by (cases x) (auto simp: row_ok_def field_ok_def)
  then have "take 4 x \<noteq> take 4 [ [] ]" by simp
  then have "merge_loop x [ [] ] [] = [join TAB (x @ NA4), join TAB ([] # NA4)]"
    by (subst merge_loop.simps) (simp add: readline_Nil strip_Nil)
  then show ?thesis
    using assms by (simp add: merge_join_def readline_Nil readline_Cons strip_Nil row_ok_line)
qed

lemma merge_join_two_or_more:
  assumes "\<forall>r \<in> set (x # y # rest). row_ok r"
  shows "merge_join (map (join TAB) (x # y # rest)) = fresh_reads (x # y # rest)"
  using assms by (simp add: merge_join_def readline_Cons row_ok_line fresh_reads_def)

lemma field_ok_NA: "field_ok ''NA''"
  by (simp add: field_ok_def is_space_def)

lemma row_ok_append: "row_ok a \<Longrightarrow> \<forall>t \<in> set b. field_ok t \<Longrightarrow> row_ok (a @ b)"
  by (auto simp: row_ok_def)

lemma row_ok_NA4: "row_ok a \<Longrightarrow> row_ok (a @ NA4)"
  by (rule row_ok_append) (simp_all add: NA4_def field_ok_NA)

lemma expected_ok: "junction_ok j \<Longrightarrow> row_ok (expected j)"
  unfolding expected_def
  by (rule row_ok_append)
     (auto simp: junction_ok_def NA4_def field_ok_NA row_ok_def split: option.splits
           dest!: in_set_takeD in_set_dropD)

lemma length_expected: "junction_ok j \<Longrightarrow> length (expected j) = 12"
  by (auto simp: junction_ok_def expected_def NA4_def split: option.splits)

lemma fields_expected: "junction_ok j \<Longrightarrow> fields (join TAB (expected j)) = expected j"
  by (simp add: fields_def row_ok_line expected_ok)

lemma key_expected: "junction_ok j \<Longrightarrow> take 4 (fields (join TAB (expected j))) = key j"
  by (simp add: fields_expected) (simp add: expected_def key_def junction_ok_def)

lemma filter_distinct_key:
  "distinct (map f xs) \<Longrightarrow> x \<in> set xs \<Longrightarrow> filter (\<lambda>y. f y = f x) xs = [x]"
proof (induction xs)
  case Nil
  then show ?case by simp
next
  case (Cons a xs)
  show ?case
  proof (cases "a = x")
    case True
    with Cons.prems have "f x \<notin> f ` set xs" by simp
    then have "\<forall>y \<in> set xs. f y \<noteq> f x" by (auto simp: image_iff)
    then have "filter (\<lambda>y. f y = f x) xs = []" by (simp add: filter_empty_conv)
    with True show ?thesis by simp
  next
    case False
    with Cons.prems have "x \<in> set xs" "f a \<noteq> f x" by auto
    with Cons show ?thesis by simp
  qed
qed

lemma filter_expected_rows:
  assumes "stream_ok js" and "j \<in> set js"
  shows "filter (\<lambda>row. take 4 (fields row) = key j) (map (\<lambda>j. join TAB (expected j)) js)
           = [join TAB (expected j)]"
proof -
  from assms have ok: "\<forall>j' \<in> set js. junction_ok j'" and d: "distinct (map key js)"
    by (simp_all add: stream_ok_def)
  have "filter (\<lambda>row. take 4 (fields row) = key j) (map (\<lambda>j. join TAB (expected j)) js)
          = map (\<lambda>j. join TAB (expected j)) (filter (\<lambda>j'. take 4 (fields (join TAB (expected j'))) = key j) js)"
    by (simp add: filter_map comp_def)
  also have "filter (\<lambda>j'. take 4 (fields (join TAB (expected j'))) = key j) js
          = filter (\<lambda>j'. key j' = key j) js"
    using ok by (intro filter_cong) (simp_all add: key_expected)
  also have "\<dots> = [j]" using d assms(2) by (rule filter_distinct_key)
  finally show ?thesis by simp
qed

lemma spurious_row_key:
  assumes "junction_ok j"
  shows "take 4 (fields (join TAB ([] # NA4))) \<noteq> key j"
proof -
  have "fields (join TAB ([] # NA4)) = [] # NA4"
    unfolding fields_def by (rule split_on_join) (auto simp: NA4_def TAB_def)
  moreover from assms obtain t ts where "origin j = t # ts" "t \<noteq> []"
    by (cases "origin j") (auto simp: junction_ok_def row_ok_def field_ok_def)
  ultimately show ?thesis by (simp add: key_def)
qed

lemma sorted_lines_cases:
  assumes "stream_ok js"
  obtains (empty) "js = []"
  | (single) j where "js = [j]" "lift j = None" "sorted_lines js = [join TAB (origin j)]"
  | (more) x y rest where "sorted_rows js = x # y # rest"
proof (cases js)
  case Nil
  then show ?thesis by (rule empty)
next
  case (Cons j js')
  note c1 = Cons
  show ?thesis
  proof (cases "lift j")
    case (Some l)
    then have "\<exists>x y. rows_of j = [x, y]" by (simp add: rows_of_def)
    then obtain x y where "sorted_rows js = x # y # sorted_rows js'"
      using c1 by (auto simp: sorted_rows_Cons)
    then show ?thesis by (rule more)
  next
    case None
    then have rj: "rows_of j = [origin j]" by (simp add: rows_of_def)
    show ?thesis
    proof (cases js')
      case Nil
      with c1 None rj show ?thesis
        by (intro single [of j]) (simp_all add: sorted_lines_def sorted_rows_def)
    next
      case (Cons j' js'')
      obtain y ys where "rows_of j' = y # ys"
        using rows_of_not_Nil [of j'] by (cases "rows_of j'") auto
      with c1 Cons rj have "sorted_rows js = origin j # y # (ys @ sorted_rows js'')"
        by (simp add: sorted_rows_Cons)
      then show ?thesis by (rule more)
    qed
  qed
qed

lemma merge_join_junctions:
  assumes "stream_ok js" and "2 \<le> length (sorted_lines js)"
  shows "merge_join (sorted_lines js) = map (\<lambda>j. join TAB (expected j)) js"
  using assms(1)
proof (cases rule: sorted_lines_cases)
  case empty
  with assms(2) show ?thesis by (simp add: sorted_lines_def sorted_rows_def)
next
  case (single j)
  with assms(2) show ?thesis by simp
next
  case (more x y rest)
  from assms(1) have "\<forall>r \<in> set (sorted_rows js). row_ok r"
    by (intro sorted_rows_ok) (simp add: stream_ok_def)
  with more have "merge_join (map (join TAB) (x # y # rest)) = fresh_reads (x # y # rest)"
    by (intro merge_join_two_or_more) simp
  with more assms(1) show ?thesis
    by (simp add: sorted_lines_def fresh_reads_junctions [symmetric])
qed

lemma merge_join_single_junction:
  assumes "junction_ok j" and "lift j = None"
  shows "merge_join [join TAB (origin j)] = [join TAB (expected j), join TAB ([] # NA4)]"
  using assms merge_join_single [of "origin j"] by (simp add: junction_ok_def expected_def)

lemma filter_output_rows:
  assumes "stream_ok js" and "j \<in> set js"
  shows "filter (\<lambda>row. take 4 (fields row) = key j) (merge_join (sorted_lines js))
           = [join TAB (expected j)]"
  using assms(1)
proof (cases rule: sorted_lines_cases)
  case empty
  with assms(2) show ?thesis by simp
next
  case (single j')
  with assms have j: "j' = j" "junction_ok j" by (simp_all add: stream_ok_def)
  with single have "merge_join (sorted_lines js) = [join TAB (expected j), join TAB ([] # NA4)]"
    by (simp add: merge_join_single_junction)
  with j show ?thesis by (simp add: key_expected spurious_row_key)
next
  case (more x y rest)
  then have "2 \<le> length (sorted_lines js)" by (simp add: sorted_lines_def)
  with assms show ?thesis by (simp add: merge_join_junctions filter_expected_rows)
qed

section \<open>Claims about the merge-join emitter\<close>

lemma example_stream_ok: "stream_ok example_junctions"
  by code_simp

text \<open>
  Claim C1. Take a sorted stream in which every junction contributes its origin row and
  possibly its lift row, next to each other, and in which no two junctions have the same
  (chrom, start, end, strand). Then for every junction of the stream the emitter prints
  exactly one row whose first four fields are that junction's key: none is dropped and
  none is duplicated, whether it has a lift row or not and wherever it stands in the stream.
\<close>

theorem one_output_row_per_junction:
  assumes "stream_ok js" and "j \<in> set js"
  shows "length (filter (\<lambda>row. take 4 (fields row) = key j) (merge_join (sorted_lines js))) = 1"
  using assms by (simp add: filter_output_rows)

theorem one_output_row_per_junction_witness:
  "stream_ok example_junctions
   \<and> Junction example_origin_3 None False \<in> set example_junctions
   \<and> length (filter (\<lambda>row. take 4 (fields row) = key (Junction example_origin_3 None False))
               (merge_join (sorted_lines example_junctions))) = 1"
proof -
  have m: "Junction example_origin_3 None False \<in> set example_junctions"
    by (simp add: example_junctions_def)
  show ?thesis
    using one_output_row_per_junction [OF example_stream_ok m] example_stream_ok m by simp
qed

text \<open>
  Claim C2. In such a stream, the output row of a junction that has a lift row is the
  origin row's eight fields followed by fields 5 to 8 of the lift row (the mapped
  chromosome, start, end and strand; the ninth field, the marker, is left out); the
  output row of a junction without a lift row is the origin row's eight fields followed
  by four times the text NA.
\<close>

theorem output_row_contents:
  assumes "stream_ok js" and "j \<in> set js"
  shows "map fields (filter (\<lambda>row. take 4 (fields row) = key j) (merge_join (sorted_lines js)))
           = [origin j @ (case lift j of
                            None \<Rightarrow> [''NA'', ''NA'', ''NA'', ''NA'']
                          | Some l \<Rightarrow> [l ! 4, l ! 5, l ! 6, l ! 7])]"
proof -
  from assms have ok: "junction_ok j" by (simp add: stream_ok_def)
  have "map fields (filter (\<lambda>row. take 4 (fields row) = key j) (merge_join (sorted_lines js)))
          = [expected j]"
    using assms ok by (simp add: filter_output_rows fields_expected)
  moreover have "expected j = origin j @ (case lift j of
                            None \<Rightarrow> [''NA'', ''NA'', ''NA'', ''NA'']
                          | Some l \<Rightarrow> [l ! 4, l ! 5, l ! 6, l ! 7])"
  proof (cases "lift j")
    case None
    then show ?thesis by (simp add: expected_def NA4_def numeral_eq_Suc)
  next
    case (Some l)
    with ok have "length l = 9" by (simp add: junction_ok_def)
    then obtain x0 x1 x2 x3 x4 x5 x6 x7 x8 where "l = [x0, x1, x2, x3, x4, x5, x6, x7, x8]"
      by (auto simp: numeral_eq_Suc length_Suc_conv)
    then have "take 4 (drop 4 l) = [l ! 4, l ! 5, l ! 6, l ! 7]"
      by simp
    with Some show ?thesis by (simp add: expected_def)
  qed
  ultimately show ?thesis by (simp only:)
qed

theorem output_row_contents_witness:
  "stream_ok example_junctions
   \<and> Junction example_origin_2 (Some example_lift_2) False \<in> set example_junctions
   \<and> map fields (filter (\<lambda>row. take 4 (fields row) = [''chr1'', ''100'', ''200'', ''-''])
                   (merge_join (sorted_lines example_junctions)))
       = [ [''chr1'', ''100'', ''200'', ''-'', ''CT'', ''AC'', ''2'', ''7'',
            ''chr1'', ''50'', ''150'', ''-''] ]"
proof -
  have m: "Junction example_origin_2 (Some example_lift_2) False \<in> set example_junctions"
    by (simp add: example_junctions_def)
  show ?thesis
    using output_row_contents [OF example_stream_ok m] example_stream_ok m
    by (simp add: key_def example_origin_2_def example_lift_2_def)
qed

text \<open>
  Claim C3 (the code departs from it). On a stream without rows the two initial reads
  both yield one empty token, the loop takes them for a pair and prints an empty line;
  on a stream of one row the loop prints that row with four NA fields and then a second
  row made of the empty second buffer and four NA fields.
\<close>

theorem merge_join_degenerate_streams:
  "merge_join [] = ['''']
   \<and> merge_join [join TAB example_origin_1]
       = [join TAB (example_origin_1 @ [''NA'', ''NA'', ''NA'', ''NA'']),
          join TAB ['''', ''NA'', ''NA'', ''NA'', ''NA''] ]"
  by code_simp

text \<open>
  Claim C6 (as stated it fails). Two junctions that agree on (chrom, start, end) and
  differ in strand give four rows with the same 3-field key; in the order origin, origin,
  lift, lift these rows are contiguous, yet no lift row stands next to its origin row and
  the emitter pairs none of them.
\<close>

theorem three_field_contiguity_counterexample:
  "merge_join (map (join TAB) [example_origin_1, example_origin_2, example_lift_1, example_lift_2])
     = [join TAB (example_origin_1 @ NA4), join TAB (example_origin_2 @ NA4),
        join TAB (example_lift_1 @ NA4), join TAB (example_lift_2 @ NA4)]
   \<and> join TAB (example_origin_1 @ take 4 (drop 4 example_lift_1))
       \<notin> set (merge_join (map (join TAB)
                 [example_origin_1, example_origin_2, example_lift_1, example_lift_2]))"
  by code_simp

text \<open>
  Claim C6, amended. When the rows with the same 4-field key (chrom, start, end,
  strand) are adjacent, in either order, the emitter pairs every lift row with its origin
  row: the output holds the origin row extended by the lift row's mapped fields, and the
  lift row is not printed as a row of its own.
\<close>

theorem lift_rows_paired:
  assumes "stream_ok js" and "j \<in> set js" and "lift j = Some l"
  shows "join TAB (origin j @ take 4 (drop 4 l)) \<in> set (merge_join (sorted_lines js))
         \<and> join TAB (l @ NA4) \<notin> set (merge_join (sorted_lines js))"
proof -
  from assms have oks: "\<forall>j' \<in> set js. junction_ok j'" and ok: "junction_ok j"
    by (simp_all add: stream_ok_def)
  have "2 \<le> length (sorted_lines js)"
    using assms(1)
  proof (cases rule: sorted_lines_cases)
    case empty
    with assms(2) show ?thesis by simp
  next
    case (single j')
    with assms(2,3) show ?thesis by simp
  next
    case (more x y rest)
    then show ?thesis by (simp add: sorted_lines_def)
  qed
  with assms(1) have out: "merge_join (sorted_lines js) = map (\<lambda>j. join TAB (expected j)) js"
    by (rule merge_join_junctions)
  have "join TAB (expected j) \<in> set (merge_join (sorted_lines js))"
    using assms(2) by (simp add: out)
  then have paired: "join TAB (origin j @ take 4 (drop 4 l)) \<in> set (merge_join (sorted_lines js))"
    using assms(3) by (simp add: expected_def)
  have alone: "join TAB (l @ NA4) \<notin> set (merge_join (sorted_lines js))"
  proof
    assume "join TAB (l @ NA4) \<in> set (merge_join (sorted_lines js))"
    then obtain j' where j': "j' \<in> set js" "join TAB (l @ NA4) = join TAB (expected j')"
      by (auto simp: out)
    from ok assms(3) have "row_ok (l @ NA4)" by (intro row_ok_NA4) (simp add: junction_ok_def)
    then have "split_on TAB (join TAB (l @ NA4)) = l @ NA4" by (rule row_ok_line)
    moreover from j' oks have "split_on TAB (join TAB (expected j')) = expected j'"
      by (intro row_ok_line expected_ok) simp
    ultimately have "l @ NA4 = expected j'" using j'(2) by metis
    then have "length l + length NA4 = length (expected j')" by (simp flip: length_append)
    moreover from ok assms(3) have "length l = 9" by (simp add: junction_ok_def)
    moreover have "length NA4 = 4" by (simp add: NA4_def)
    moreover from j' oks have "length (expected j') = 12" by (simp add: length_expected)
    ultimately show False by simp
  qed
  from paired alone show ?thesis ..
qed

theorem lift_rows_paired_witness:
  "stream_ok example_junctions
   \<and> Junction example_origin_1 (Some example_lift_1) True \<in> set example_junctions
   \<and> join TAB (example_origin_1 @ [''chr1'', ''50'', ''150'', ''+''])
       \<in> set (merge_join (sorted_lines example_junctions))
   \<and> join TAB (example_lift_1 @ NA4) \<notin> set (merge_join (sorted_lines example_junctions))"
proof -
  have m: "Junction example_origin_1 (Some example_lift_1) True \<in> set example_junctions"
    by (simp add: example_junctions_def)
  have l: "lift (Junction example_origin_1 (Some example_lift_1) True) = Some example_lift_1"
    by simp
  have "take 4 (drop 4 example_lift_1) = [''chr1'', ''50'', ''150'', ''+'']"
    by (simp add: example_lift_1_def)
  then show ?thesis
    using lift_rows_paired [OF example_stream_ok m l] example_stream_ok m by simp
qed

section \<open>Blank lines\<close>

lemma strip_blank: "is_blank l \<Longrightarrow> strip (l @ [NL]) = []"
  by (simp add: strip_def is_blank_def is_space_def NL_def dropWhile_eq_Nil_conv)

lemma merge_loop_Nil:
  "merge_loop a b [] =
     (if take 4 a = take 4 b
      then [join TAB ((if length a > length b then b else a)
                       @ take 4 (drop 4 (if length a > length b then a else b)))]
      else [join TAB (a @ NA4), join TAB (b @ NA4)])"
  by (subst merge_loop.simps) (simp add: readline_Nil strip_Nil)

lemma merge_loop_Cons:
  "merge_loop a b (x # s) =
     (if take 4 a = take 4 b
      then (let printed = join TAB ((if length a > length b then b else a)
                            @ take 4 (drop 4 (if length a > length b then a else b)))
            in if strip (x @ [NL]) = [] then [printed]
               else if strip (fst (readline s)) = []
                    then [printed, join TAB (split_on TAB (strip (x @ [NL])) @ NA4)]
                    else printed # merge_loop (split_on TAB (strip (x @ [NL])))
                                     (split_on TAB (strip (fst (readline s)))) (snd (readline s)))
      else (if strip (x @ [NL]) = [] then [join TAB (a @ NA4), join TAB (b @ NA4)]
            else join TAB (a @ NA4) # merge_loop b (split_on TAB (strip (x @ [NL]))) s))"
  by (subst merge_loop.simps) (simp add: readline_Cons Let_def)

lemma merge_loop_stops_at_blank:
  assumes "is_blank l"
  shows "merge_loop a b (s @ l # post) = merge_loop a b s"
proof (induction s arbitrary: a b rule: length_induct)
  case (1 s)
  show ?case
  proof (cases s)
    case Nil
    with assms show ?thesis by (simp add: merge_loop_Nil merge_loop_Cons strip_blank)
  next
    case (Cons x s')
    with 1 have IH1: "merge_loop p q (s' @ l # post) = merge_loop p q s'" for p q
      by simp
    have R1: "strip (fst (readline (s' @ l # post))) = strip (fst (readline s'))"
      using assms by (cases s') (simp_all add: readline_Nil readline_Cons strip_Nil strip_blank)
    have R2: "merge_loop p q (snd (readline (s' @ l # post))) = merge_loop p q (snd (readline s'))"
      if "strip (fst (readline s')) \<noteq> []" for p q
    proof (cases s')
      case Nil
      with that show ?thesis by (simp add: readline_Nil strip_Nil)
    next
      case (Cons y s'')
      with 1 \<open>s = x # s'\<close> have "merge_loop p q (s'' @ l # post) = merge_loop p q s''"
        by simp
      with Cons show ?thesis by (simp add: readline_Cons)
    qed
    have "merge_loop a b (x # (s' @ l # post)) = merge_loop a b (x # s')"
      unfolding merge_loop_Cons [of a b x "s' @ l # post"] merge_loop_Cons [of a b x s']
      by (auto simp: Let_def R1 R2 IH1)
    with Cons show ?thesis by simp
  qed
qed

text \<open>
  Claim C10 (as stated it fails). The two initial reads are not tested for emptiness.
  A blank first line becomes a row with one empty field: it is printed with four NA
  fields and the rows after it are processed as usual.
\<close>

theorem blank_first_line_counterexample:
  "merge_join ['''', join TAB example_origin_1, join TAB example_origin_3]
     = [join TAB ['''', ''NA'', ''NA'', ''NA'', ''NA''],
        join TAB (example_origin_1 @ NA4), join TAB (example_origin_3 @ NA4)]"
  by code_simp

text \<open>
  Claim C10, amended. A line that is empty or made of whitespace only, anywhere after
  the first two lines of the sorted stream, ends the run of the emitter: the output is
  the one it gives on the stream cut before that line, so nothing is printed for the
  rows that follow it.
\<close>

theorem blank_line_ends_stream:
  assumes "is_blank l" and "2 \<le> length pre"
  shows "merge_join (pre @ l # post) = merge_join pre"
proof -
  from assms(2) obtain x y s where "pre = x # y # s"
    by (cases pre; cases "tl pre") auto
  with assms(1) show ?thesis
    by (simp add: merge_join_def readline_Cons merge_loop_stops_at_blank)
qed

theorem blank_line_ends_stream_witness:
  "is_blank [CHR '' '', TAB]
   \<and> 2 \<le> length [join TAB example_origin_1, join TAB example_origin_3]
   \<and> merge_join ([join TAB example_origin_1, join TAB example_origin_3]
                   @ [CHR '' '', TAB] # [join TAB example_origin_2])
       = [join TAB (example_origin_1 @ NA4), join TAB (example_origin_3 @ NA4)]"
proof -
  have h1: "is_blank [CHR '' '', TAB]" by code_simp
  have h2: "2 \<le> length [join TAB example_origin_1, join TAB example_origin_3]" by simp
  have "merge_join [join TAB example_origin_1, join TAB example_origin_3]
          = [join TAB (example_origin_1 @ NA4), join TAB (example_origin_3 @ NA4)]"
    by code_simp
  then show ?thesis
    using blank_line_ends_stream [OF h1 h2, of "[join TAB example_origin_2]"] h1 by simp
qed

section \<open>Streams that are not well formed\<close>

lemma strip_eq_Nil: "strip s = [] \<longleftrightarrow> (\<forall>c \<in> set s. is_space c)"
proof
  assume "strip s = []"
  then have "dropWhile is_space (rev (dropWhile is_space s)) = []"
    by (simp add: strip_def)
  then have all: "\<forall>c \<in> set (dropWhile is_space s). is_space c"
    by (simp add: dropWhile_eq_Nil_conv)
  have "dropWhile is_space s = []"
  proof (cases "dropWhile is_space s")
    case Nil
    then show ?thesis .
  next
    case (Cons c cs)
    then have "\<not> is_space c" using hd_dropWhile [of is_space s] by simp
    with all Cons show ?thesis by simp
  qed
  then show "\<forall>c \<in> set s. is_space c" by (simp add: dropWhile_eq_Nil_conv)
next
  assume "\<forall>c \<in> set s. is_space c"
  then have d: "dropWhile is_space s = []" by (simp add: dropWhile_eq_Nil_conv)
  show "strip s = []" unfolding strip_def d by simp
qed

lemma strip_line_Nil: "strip (l @ [NL]) = [] \<longleftrightarrow> is_blank l"
  by (auto simp: strip_eq_Nil is_blank_def is_space_def NL_def)

lemma merge_loop_rows:
  "\<forall>x \<in> set s. \<not> is_blank x
     \<Longrightarrow> merge_loop a b s = map (join TAB) (walk_rows (a # b # map row_tokens s))"
proof (induction s arbitrary: a b rule: length_induct)
  case (1 s)
  show ?case
  proof (cases s)
    case Nil
    then show ?thesis by (simp add: merge_loop_Nil)
  next
    case (Cons x s')
    note c1 = Cons
    with 1 have x: "strip (x @ [NL]) \<noteq> []" by (simp add: strip_line_Nil)
    show ?thesis
    proof (cases s')
      case Nil
      with c1 x show ?thesis
        by (simp add: merge_loop_Cons merge_loop_Nil readline_Nil strip_Nil Let_def row_tokens_def)
    next
      case (Cons y s'')
      with 1 c1 have y: "strip (y @ [NL]) \<noteq> []" by (simp add: strip_line_Nil)
      from 1 c1 Cons
      have IH1: "merge_loop p q (y # s'')
                   = map (join TAB) (walk_rows (p # q # map row_tokens (y # s'')))" for p q
        by simp
      from 1 c1 Cons
      have IH2: "merge_loop p q s'' = map (join TAB) (walk_rows (p # q # map row_tokens s''))"
        for p q by simp
      have "merge_loop a b (x # y # s'')
              = map (join TAB) (walk_rows (a # b # map row_tokens (x # y # s'')))"
        unfolding merge_loop_Cons [of a b x "y # s''"]
        using x y by (simp add: IH1 IH2 readline_Cons Let_def row_tokens_def)
      with c1 Cons show ?thesis by simp
    qed
  qed
qed

lemma merge_loop_upto_blank:
  "merge_loop a b s = merge_loop a b (takeWhile (\<lambda>l. \<not> is_blank l) s)"
proof (cases "dropWhile (\<lambda>l. \<not> is_blank l) s")
  case Nil
  then have "takeWhile (\<lambda>l. \<not> is_blank l) s = s"
    by (metis append_Nil2 takeWhile_dropWhile_id)
  then show ?thesis by (rule arg_cong [where f = "merge_loop a b", symmetric])
next
  case (Cons l post)
  then have "is_blank l" using hd_dropWhile [of "\<lambda>l. \<not> is_blank l" s] by simp
  moreover from Cons have "s = takeWhile (\<lambda>l. \<not> is_blank l) s @ l # post"
    by (metis takeWhile_dropWhile_id)
  ultimately show ?thesis using merge_loop_stops_at_blank by metis
qed

lemma merge_join_rows:
  assumes "2 \<le> length (takeWhile (\<lambda>l. \<not> is_blank l) stream)"
  shows "merge_join stream = map (join TAB) (walk_rows (rows_read stream))"
proof -
  from assms obtain x y s where s: "stream = x # y # s"
    by (cases stream; cases "tl stream") (auto split: if_splits)
  with assms have nb: "\<not> is_blank x" "\<not> is_blank y"
    by (auto split: if_splits)
  have "merge_join stream = merge_loop (row_tokens x) (row_tokens y) s"
    by (simp add: s merge_join_def readline_Cons row_tokens_def)
  also have "\<dots> = merge_loop (row_tokens x) (row_tokens y) (takeWhile (\<lambda>l. \<not> is_blank l) s)"
    by (rule merge_loop_upto_blank)
  also have "\<dots> = map (join TAB)
      (walk_rows (row_tokens x # row_tokens y # map row_tokens (takeWhile (\<lambda>l. \<not> is_blank l) s)))"
    by (rule merge_loop_rows) (auto dest: set_takeWhileD)
  finally show ?thesis using nb by (simp add: s rows_read_def)
qed

lemma walk_rows_lone:
  assumes "A \<noteq> [] \<longrightarrow> take 4 (last A) \<noteq> take 4 r"
    and "B \<noteq> [] \<longrightarrow> take 4 r \<noteq> take 4 (hd B)"
  shows "r @ NA4 \<in> set (walk_rows (A @ r # B))"
  using assms
proof (induction A rule: length_induct)
  case (1 A)
  show ?case
  proof (cases A)
    case Nil
    with 1(3) show ?thesis by (cases B) auto
  next
    case (Cons a A')
    note c1 = Cons
    show ?thesis
    proof (cases A')
      case Nil
      with c1 1(2) have "take 4 a \<noteq> take 4 r" by simp
      moreover have "r @ NA4 \<in> set (walk_rows (r # B))"
        using 1(3) by (cases B) auto
      ultimately show ?thesis using c1 Nil by simp
    next
      case (Cons a' A'')
      from 1(2) c1 Cons have l1: "take 4 (last (a' # A'')) \<noteq> take 4 r" by simp
      then have l2: "A'' \<noteq> [] \<longrightarrow> take 4 (last A'') \<noteq> take 4 r" by auto
      have len1: "length (a' # A'') < length A" by (simp add: c1 Cons)
      have len2: "length A'' < length A" by (simp add: c1 Cons)
      have m1: "r @ NA4 \<in> set (walk_rows ((a' # A'') @ r # B))"
        using 1(1) len1 l1 1(3) by blast
      have m2: "r @ NA4 \<in> set (walk_rows (A'' @ r # B))"
        using 1(1) len2 l2 1(3) by blast
      from m1 m2 c1 Cons show ?thesis by simp
    qed
  qed
qed

text \<open>
  Claim C8 (as stated it fails). The loop has no check of a row's shape and no way to
  abort. A lift row whose origin row is missing is printed like any unpaired row, with
  four NA fields appended to its nine fields.
\<close>

theorem lone_lift_row_counterexample:
  "merge_join [join TAB example_lift_1, join TAB example_origin_3]
     = [join TAB (example_lift_1 @ [''NA'', ''NA'', ''NA'', ''NA'']),
        join TAB (example_origin_3 @ [''NA'', ''NA'', ''NA'', ''NA''])]"
  by code_simp

text \<open>
  Claim C8, amended. The emitter has no test of a row's shape and no failure path: once
  the normalizer, the mapper's file, the stream merger and the sort have succeeded, the
  run ends with the emitter's output, whatever the sorted stream holds. Take a stream
  that begins with two or more non-blank lines, and read as its rows the lines up to the
  first blank one, each stripped and split at the tabs. The output is the result of
  walking these rows in order: two neighbouring rows that agree on their first four
  fields give one output row (the second row if the first has more fields, else the
  first, followed by fields 5 to 8 of the other) and are both consumed; any other row is
  printed followed by four NA fields, whatever its number of fields. In particular a
  non-blank row with no blank line before it that agrees on its first four fields neither
  with the row before it nor with the row after it (a blank line after it ends the
  stream), such as a lift row whose origin row is missing, is printed followed by four
  NA fields.
\<close>

theorem stray_rows_are_emitted:
  "(2 \<le> length (takeWhile (\<lambda>l. \<not> is_blank l) stream)
      \<longrightarrow> merge_join stream = map (join TAB) (walk_rows (rows_read stream)))
   \<and> (2 \<le> length (takeWhile (\<lambda>x. \<not> is_blank x) (pre @ l # post))
        \<and> (\<forall>x \<in> set (pre @ [l]). \<not> is_blank x)
        \<and> (pre \<noteq> [] \<longrightarrow> take 4 (row_tokens (last pre)) \<noteq> take 4 (row_tokens l))
        \<and> (post \<noteq> [] \<and> \<not> is_blank (hd post)
              \<longrightarrow> take 4 (row_tokens l) \<noteq> take 4 (row_tokens (hd post)))
      \<longrightarrow> join TAB (row_tokens l @ NA4) \<in> set (merge_join (pre @ l # post)))
   \<and> (normalize_lines 0 (file_lines intropolis) = Inr temp_hg38
        \<and> snd (liftover temp_hg38) = Some hg19_stream
        \<and> lift_rows (file_lines hg19_stream) = Inr lifted
        \<and> fst (sort_cmd (lifted @ intropolis)) = 0
      \<longrightarrow> main liftover sort_cmd intropolis
            = Inr (merge_join (snd (sort_cmd (lifted @ intropolis)))))"
proof (intro conjI impI)
  assume "2 \<le> length (takeWhile (\<lambda>l. \<not> is_blank l) stream)"
  then show "merge_join stream = map (join TAB) (walk_rows (rows_read stream))"
    by (rule merge_join_rows)
next
  assume a: "2 \<le> length (takeWhile (\<lambda>x. \<not> is_blank x) (pre @ l # post))
        \<and> (\<forall>x \<in> set (pre @ [l]). \<not> is_blank x)
        \<and> (pre \<noteq> [] \<longrightarrow> take 4 (row_tokens (last pre)) \<noteq> take 4 (row_tokens l))
        \<and> (post \<noteq> [] \<and> \<not> is_blank (hd post)
              \<longrightarrow> take 4 (row_tokens l) \<noteq> take 4 (row_tokens (hd post)))"
  let ?nb = "\<lambda>l. \<not> is_blank l"
  from a have nb: "\<forall>x \<in> set (pre @ [l]). ?nb x" by blast
  then have tw: "takeWhile ?nb (pre @ l # post) = pre @ l # takeWhile ?nb post"
    by (simp add: takeWhile_append2)
  from a have "2 \<le> length (takeWhile ?nb (pre @ l # post))" by blast
  then have out: "merge_join (pre @ l # post)
      = map (join TAB) (walk_rows (rows_read (pre @ l # post)))"
    by (rule merge_join_rows)
  have rows: "rows_read (pre @ l # post)
      = map row_tokens pre @ row_tokens l # map row_tokens (takeWhile ?nb post)"
    by (simp add: rows_read_def tw)
  have left: "map row_tokens pre \<noteq> []
      \<longrightarrow> take 4 (last (map row_tokens pre)) \<noteq> take 4 (row_tokens l)"
    using a by (simp add: last_map)
  have right: "map row_tokens (takeWhile ?nb post) \<noteq> []
      \<longrightarrow> take 4 (row_tokens l) \<noteq> take 4 (hd (map row_tokens (takeWhile ?nb post)))"
  proof
    assume "map row_tokens (takeWhile ?nb post) \<noteq> []"
    then obtain p ps where p: "post = p # ps" "\<not> is_blank p"
      by (cases post) (auto split: if_splits)
    with a have "take 4 (row_tokens l) \<noteq> take 4 (row_tokens p)" by simp
    with p show "take 4 (row_tokens l) \<noteq> take 4 (hd (map row_tokens (takeWhile ?nb post)))"
      by simp
  qed
  have "row_tokens l @ NA4 \<in> set (walk_rows (rows_read (pre @ l # post)))"
    unfolding rows using left right by (rule walk_rows_lone)
  then show "join TAB (row_tokens l @ NA4) \<in> set (merge_join (pre @ l # post))"
    by (simp add: out)
next
  assume "normalize_lines 0 (file_lines intropolis) = Inr temp_hg38
        \<and> snd (liftover temp_hg38) = Some hg19_stream
        \<and> lift_rows (file_lines hg19_stream) = Inr lifted
        \<and> fst (sort_cmd (lifted @ intropolis)) = 0"
  then show "main liftover sort_cmd intropolis
            = Inr (merge_join (snd (sort_cmd (lifted @ intropolis))))"
    by (simp add: main_def Let_def)
qed

theorem stray_rows_are_emitted_witness:
  "2 \<le> length (takeWhile (\<lambda>l. \<not> is_blank l)
          (map (join TAB) [example_origin_1, example_lift_1, example_lift_2, example_origin_3]))
   \<and> merge_join (map (join TAB) [example_origin_1, example_lift_1, example_lift_2, example_origin_3])
       = [join TAB (example_origin_1 @ [''chr1'', ''50'', ''150'', ''+'']),
          join TAB (example_lift_2 @ NA4), join TAB (example_origin_3 @ NA4)]
   \<and> join TAB (row_tokens (join TAB example_lift_2) @ NA4)
       \<in> set (merge_join ([join TAB example_origin_1, join TAB example_lift_1]
                 @ join TAB example_lift_2 # [join TAB example_origin_3]))
   \<and> main (\<lambda>bed. (0, Some []))
          (\<lambda>both. (0, [join TAB example_lift_2, join TAB [''chrX'', ''5''] ]))
          [join TAB example_origin_1]
       = Inr [join TAB (example_lift_2 @ NA4), join TAB ([''chrX'', ''5''] @ NA4)]"
proof -
  let ?stream = "map (join TAB) [example_origin_1, example_lift_1, example_lift_2, example_origin_3]"
  let ?pre = "[join TAB example_origin_1, join TAB example_lift_1]"
  let ?l = "join TAB example_lift_2"
  let ?post = "[join TAB example_origin_3]"
  let ?liftover = "\<lambda>bed :: string list. (0 :: int, Some ([] :: string list))"
  let ?sort = "\<lambda>both :: string list. (0 :: int, [join TAB example_lift_2, join TAB [''chrX'', ''5''] ])"
  let ?bed = "[join TAB [''chr1'', ''99'', ''200'', ''info_0;chr1;99;200;+'', ''1'', ''+''] ]"
  have h1: "2 \<le> length (takeWhile (\<lambda>l. \<not> is_blank l) ?stream)"
    by code_simp
  have e1: "map (join TAB) (walk_rows (rows_read ?stream))
      = [join TAB (example_origin_1 @ [''chr1'', ''50'', ''150'', ''+'']),
         join TAB (example_lift_2 @ NA4), join TAB (example_origin_3 @ NA4)]"
    by code_simp
  have h2: "2 \<le> length (takeWhile (\<lambda>x. \<not> is_blank x) (?pre @ ?l # ?post))
        \<and> (\<forall>x \<in> set (?pre @ [?l]). \<not> is_blank x)
        \<and> (?pre \<noteq> [] \<longrightarrow> take 4 (row_tokens (last ?pre)) \<noteq> take 4 (row_tokens ?l))
        \<and> (?post \<noteq> [] \<and> \<not> is_blank (hd ?post)
              \<longrightarrow> take 4 (row_tokens ?l) \<noteq> take 4 (row_tokens (hd ?post)))"
    by code_simp
  have h3: "normalize_lines 0 (file_lines [join TAB example_origin_1]) = Inr ?bed
        \<and> snd (?liftover ?bed) = Some []
        \<and> lift_rows (file_lines []) = Inr []
        \<and> fst (?sort ([] @ [join TAB example_origin_1])) = 0"
    by code_simp
  have e3: "merge_join (snd (?sort ([] @ [join TAB example_origin_1])))
      = [join TAB (example_lift_2 @ NA4), join TAB ([''chrX'', ''5''] @ NA4)]"
    by code_simp
  note t = stray_rows_are_emitted [of ?stream ?pre ?l ?post "[join TAB example_origin_1]" ?bed
             ?liftover "[]" "[]" ?sort]
  from t h1 have c1: "merge_join ?stream = map (join TAB) (walk_rows (rows_read ?stream))"
    by blast
  from t h2 have c2: "join TAB (row_tokens ?l @ NA4) \<in> set (merge_join (?pre @ ?l # ?post))"
    by blast
  from t h3 have c3: "main ?liftover ?sort [join TAB example_origin_1]
      = Inr (merge_join (snd (?sort ([] @ [join TAB example_origin_1]))))"
    by blast
  from h1 c1 c2 c3 show ?thesis by (simp only: e1 e3)
qed

section \<open>Decimal text of integers\<close>

lemma digit_char_cases:
  assumes "d < 10"
  shows "d = 0 \<or> d = 1 \<or> d = 2 \<or> d = 3 \<or> d = 4 \<or> d = 5 \<or> d = 6 \<or> d = 7 \<or> d = 8 \<or> d = (9::nat)"
  using assms by arith

lemma digit_val_digit_char: "d < 10 \<Longrightarrow> digit_val (digit_char d) = Some d"
  using digit_char_cases [of d] by (auto simp: digit_char_def digit_val_def)

lemma digit_char_in: "d < 10 \<Longrightarrow> digit_char d \<in> set ''0123456789''"
  using digit_char_cases [of d] by (auto simp: digit_char_def)

lemma nat_str_digits: "set (nat_str n) \<subseteq> set ''0123456789''"
proof (induction n rule: nat_str.induct)
  case (1 n)
  show ?case
  proof (cases "n < 10")
    case True
    then show ?thesis using digit_char_in [of n] by (subst nat_str.simps) simp
  next
    case False
    with 1 have "set (nat_str (n div 10)) \<subseteq> set ''0123456789''" by simp
    moreover have "digit_char (n mod 10) \<in> set ''0123456789''" by (rule digit_char_in) simp
    ultimately show ?thesis using False by (subst nat_str.simps) simp
  qed
qed

lemma nat_str_not_Nil: "nat_str n \<noteq> []"
  by (subst nat_str.simps) simp

lemma digits_val_snoc:
  "digits_val acc (xs @ [c]) =
     (case digits_val acc xs of
        None \<Rightarrow> None
      | Some a \<Rightarrow> (case digit_val c of None \<Rightarrow> None | Some d \<Rightarrow> Some (10 * a + d)))"
  by (induction xs arbitrary: acc) (auto split: option.splits)

lemma digits_val_nat_str: "digits_val 0 (nat_str n) = Some n"
proof (induction n rule: nat_str.induct)
  case (1 n)
  show ?case
  proof (cases "n < 10")
    case True
    then show ?thesis by (subst nat_str.simps) (simp add: digit_val_digit_char)
  next
    case False
    with 1 have "digits_val 0 (nat_str (n div 10)) = Some (n div 10)" by simp
    with False show ?thesis
      by (subst nat_str.simps) (simp add: digits_val_snoc digit_val_digit_char)
  qed
qed

lemma py_str_chars:
  assumes "c \<in> set (py_str n)"
  shows "c = CHR ''-'' \<or> c \<in> set ''0123456789''"
proof -
  from assms consider "c = CHR ''-''" | "c \<in> set (nat_str (nat (- n)))" | "c \<in> set (nat_str (nat n))"
    by (cases "n < 0") (simp_all add: py_str_def, blast)
  then show ?thesis
  proof cases
    case 1
    then show ?thesis by (rule disjI1)
  next
    case 2
    then show ?thesis by (intro disjI2 subsetD [OF nat_str_digits])
  next
    case 3
    then show ?thesis by (intro disjI2 subsetD [OF nat_str_digits])
  qed
qed

lemma py_str_not_Nil: "py_str n \<noteq> []"
  by (simp add: py_str_def nat_str_not_Nil)

lemma digit_not_space: "c = CHR ''-'' \<or> c \<in> set ''0123456789'' \<Longrightarrow> \<not> is_space c"
  by (auto simp: is_space_def)

lemma digit_not_semicolon: "c = CHR ''-'' \<or> c \<in> set ''0123456789'' \<Longrightarrow> c \<noteq> CHR '';''"
  by auto

lemma field_ok_py_str: "field_ok (py_str n)"
  unfolding field_ok_def
proof (intro conjI ballI)
  show "py_str n \<noteq> []" by (rule py_str_not_Nil)
  fix c assume "c \<in> set (py_str n)"
  then show "\<not> is_space c" by (intro digit_not_space py_str_chars)
qed

lemma no_semicolon_py_str: "CHR '';'' \<notin> set (py_str n)"
  using digit_not_semicolon [OF py_str_chars [of "CHR '';''" n] ] by blast

lemma field_ok_strip: "field_ok t \<Longrightarrow> strip t = t"
proof (rule strip_clean)
  assume "field_ok t"
  then show "t \<noteq> []" "\<not> is_space (hd t)" "\<not> is_space (last t)"
    by (auto simp: field_ok_def)
qed

lemma py_int_py_str: "py_int (py_str n) = Some n"
proof (cases "n < 0")
  case True
  then have "py_str n = CHR ''-'' # nat_str (nat (- n))" by (simp add: py_str_def)
  moreover have "strip (py_str n) = py_str n" by (rule field_ok_strip) (rule field_ok_py_str)
  ultimately show ?thesis
    using True by (simp add: py_int_def nat_str_not_Nil digits_val_nat_str)
next
  case False
  obtain c cs where cs: "nat_str (nat n) = c # cs"
    using nat_str_not_Nil [of "nat n"] by (cases "nat_str (nat n)") auto
  then have "c \<in> set (nat_str (nat n))" by simp
  then have "c \<in> set ''0123456789''" by (rule subsetD [OF nat_str_digits])
  then have c: "c \<noteq> CHR ''-''" "c \<noteq> CHR ''+''" by auto
  from False have p: "py_str n = nat_str (nat n)" by (simp add: py_str_def)
  moreover have "strip (py_str n) = py_str n" by (rule field_ok_strip) (rule field_ok_py_str)
  moreover have "digits_val 0 (c # cs) = Some (nat n)"
    using digits_val_nat_str [of "nat n"] by (simp only: cs)
  ultimately show ?thesis
    using False c cs by (simp add: py_int_def del: digits_val.simps)
qed

section \<open>Claims about the normalizer and the stream merger\<close>

lemma bed_fields_Inr:
  assumes "bed_fields tokens = Inr f" and "py_int (tokens ! 1) = Some n"
  shows "f = (tokens ! 0, py_str (n - 1), tokens ! 2, tokens ! 3)"
  using assms by (auto simp: bed_fields_def split: if_splits)

text \<open>
  Claim C5 (as stated it fails). The start that enters the synthetic name is the
  half-open start, one less than the original 1-based start: for the record
  chr1, 100, 200, + with ordinal 0 the name is 0;chr1;99;200;+ and not 0;chr1;100;200;+.
\<close>

theorem synthetic_name_start_counterexample:
  "bed_fields example_origin_1 = Inr (''chr1'', ''99'', ''200'', ''+'')
   \<and> junction_name 0 (''chr1'', ''99'', ''200'', ''+'') = ''0;chr1;99;200;+''
   \<and> junction_name 0 (''chr1'', ''99'', ''200'', ''+'')
       \<noteq> join (CHR '';'') [''0'', ''chr1'', ''100'', ''200'', ''+'']"
  by code_simp

text \<open>
  Claim C5, amended. For every record the normalizer accepts, the synthetic name is
  the ordinal index, the chromosome, the half-open start (the original start minus one),
  the end and the strand, joined by semicolons; when chromosome, end and strand hold no
  semicolon, splitting the name at the semicolons gives these five components back.
\<close>

theorem synthetic_name_fields:
  assumes "bed_fields tokens = Inr f" and "py_int (tokens ! 1) = Some n"
    and "\<forall>t \<in> set [tokens ! 0, tokens ! 2, tokens ! 3]. CHR '';'' \<notin> set t"
  shows "junction_name i f
           = join (CHR '';'') [py_str (int i), tokens ! 0, py_str (n - 1), tokens ! 2, tokens ! 3]
         \<and> split_on (CHR '';'') (junction_name i f)
           = [py_str (int i), tokens ! 0, py_str (n - 1), tokens ! 2, tokens ! 3]"
proof -
  from assms(1,2) have f: "f = (tokens ! 0, py_str (n - 1), tokens ! 2, tokens ! 3)"
    by (rule bed_fields_Inr)
  then have name: "junction_name i f
      = join (CHR '';'') [py_str (int i), tokens ! 0, py_str (n - 1), tokens ! 2, tokens ! 3]"
    by (simp add: junction_name_def)
  have "split_on (CHR '';'')
          (join (CHR '';'') [py_str (int i), tokens ! 0, py_str (n - 1), tokens ! 2, tokens ! 3])
        = [py_str (int i), tokens ! 0, py_str (n - 1), tokens ! 2, tokens ! 3]"
    using assms(3) by (intro split_on_join) (simp_all add: no_semicolon_py_str)
  with name show ?thesis by simp
qed

theorem synthetic_name_fields_witness:
  "bed_fields example_origin_1 = Inr (''chr1'', ''99'', ''200'', ''+'')
   \<and> py_int (example_origin_1 ! 1) = Some 100
   \<and> list_all (\<lambda>t. CHR '';'' \<notin> set t)
         [example_origin_1 ! 0, example_origin_1 ! 2, example_origin_1 ! 3]
   \<and> split_on (CHR '';'') (junction_name 7 (''chr1'', ''99'', ''200'', ''+''))
       = [''7'', ''chr1'', ''99'', ''200'', ''+'']"
proof -
  have h1: "bed_fields example_origin_1 = Inr (''chr1'', ''99'', ''200'', ''+'')"
    by code_simp
  have h2: "py_int (example_origin_1 ! 1) = Some 100"
    by code_simp
  have h3: "\<forall>t \<in> set [example_origin_1 ! 0, example_origin_1 ! 2, example_origin_1 ! 3].
              CHR '';'' \<notin> set t"
    by code_simp
  have e: "[py_str (int 7), example_origin_1 ! 0, py_str (100 - 1), example_origin_1 ! 2,
            example_origin_1 ! 3] = [''7'', ''chr1'', ''99'', ''200'', ''+'']"
    by code_simp
  show ?thesis
    using synthetic_name_fields [OF h1 h2 h3, of 7] h1 h2 h3
    by (simp only: e list_all_iff) simp
qed

lemma set_join: "set (join d ts) \<subseteq> insert d (\<Union>t \<in> set ts. set t)"
  by (induction d ts rule: join.induct) auto

lemma field_ok_append: "field_ok a \<Longrightarrow> field_ok b \<Longrightarrow> field_ok (a @ b)"
  by (auto simp: field_ok_def)

lemma field_ok_join:
  assumes "row_ok ts" and "\<not> is_space d"
  shows "field_ok (join d ts)"
  unfolding field_ok_def
proof (intro conjI ballI)
  from assms(1) show "join d ts \<noteq> []"
    by (intro join_not_Nil) (auto simp: row_ok_def field_ok_def hd_in_set)
  fix c assume "c \<in> set (join d ts)"
  with set_join [of d ts] have "c = d \<or> (\<exists>t \<in> set ts. c \<in> set t)" by auto
  with assms show "\<not> is_space c" by (auto simp: row_ok_def field_ok_def)
qed

text \<open>
  Claim C7. Let the normalizer accept a record whose start field reads as the integer
  \<open>n\<close>; it writes \<open>n - 1\<close> into the synthetic name. When the mapper returns an
  interval carrying that name, the stream merger parses the start back from the name and
  adds one: the second field of the lift row is the text of \<open>n\<close> again, so subtracting
  and re-adding one are exact inverses. (The mapped start gets its own +1 in field 6.)
\<close>

theorem start_round_trip:
  assumes "bed_fields tokens = Inr f" and "py_int (tokens ! 1) = Some n"
    and "\<forall>t \<in> set [tokens ! 0, tokens ! 2, tokens ! 3]. field_ok t \<and> CHR '';'' \<notin> set t"
    and "\<forall>t \<in> set [chrom, start, end, score, strand]. field_ok t"
    and "py_int start = Some m"
  shows "lift_row (join TAB [chrom, start, end, ''info_'' @ junction_name i f, score, strand] @ [NL])
           = Inr (join TAB [tokens ! 0, py_str n, tokens ! 2, tokens ! 3,
                            chrom, py_str (m + 1), end, strand, ''FAKE''])"
proof -
  define p0 where "p0 = ''info_'' @ py_str (int i)"
  define parts where "parts = [p0, tokens ! 0, py_str (n - 1), tokens ! 2, tokens ! 3]"
  define name where "name = join (CHR '';'') parts"
  define row where "row = [chrom, start, end, name, score, strand]"
  from assms(1,2) have f: "f = (tokens ! 0, py_str (n - 1), tokens ! 2, tokens ! 3)"
    by (rule bed_fields_Inr)
  then have name: "''info_'' @ junction_name i f = name"
    by (simp add: junction_name_def name_def parts_def p0_def)
  have info: "field_ok p0"
    unfolding p0_def by (intro field_ok_append field_ok_py_str) (simp add: field_ok_def is_space_def)
  have "CHR '';'' \<notin> set p0"
    using no_semicolon_py_str [of "int i"] by (simp add: p0_def)
  then have semi: "\<forall>t \<in> set parts. CHR '';'' \<notin> set t"
    using assms(3) by (simp add: parts_def no_semicolon_py_str)
  have "row_ok parts"
    using assms(3) info by (simp add: row_ok_def parts_def field_ok_py_str)
  then have ok_name: "field_ok name"
    unfolding name_def by (rule field_ok_join) (simp add: is_space_def)
  have "parts \<noteq> []" by (simp add: parts_def)
  then have "split_on (CHR '';'') name = parts"
    unfolding name_def using semi by (rule split_on_join)
  then have split_name:
    "split_on (CHR '';'') name = [p0, tokens ! 0, py_str (n - 1), tokens ! 2, tokens ! 3]"
    by (simp only: parts_def)
  have "row_ok row" using assms(4) ok_name by (simp add: row_ok_def row_def)
  then have "split_on TAB (strip (join TAB row @ [NL])) = row"
    by (simp only: row_ok_line)
  then have "take 6 (split_on TAB (strip (join TAB row @ [NL])))
               = [chrom, start, end, name, score, strand]"
    by (simp add: row_def)
  then have "lift_row (join TAB row @ [NL])
          = Inr (join TAB [tokens ! 0, py_str (n - 1 + 1), tokens ! 2, tokens ! 3,
                           chrom, py_str (m + 1), end, strand, ''FAKE''])"
    unfolding lift_row_def by (simp add: split_name py_int_py_str assms(5) del: join.simps)
  then have "lift_row (join TAB [chrom, start, end, name, score, strand] @ [NL])
          = Inr (join TAB [tokens ! 0, py_str n, tokens ! 2, tokens ! 3,
                           chrom, py_str (m + 1), end, strand, ''FAKE''])"
    by (simp add: row_def del: join.simps)
  then show ?thesis by (simp only: name)
qed

theorem start_round_trip_witness:
  "bed_fields example_origin_1 = Inr (''chr1'', ''99'', ''200'', ''+'')
   \<and> py_int (example_origin_1 ! 1) = Some 100
   \<and> list_all (\<lambda>t. field_ok t \<and> CHR '';'' \<notin> set t)
         [example_origin_1 ! 0, example_origin_1 ! 2, example_origin_1 ! 3]
   \<and> list_all field_ok [''chr1'', ''49'', ''150'', ''1'', ''+'']
   \<and> py_int ''49'' = Some 49
   \<and> lift_row (join TAB [''chr1'', ''49'', ''150'',
                          ''info_'' @ junction_name 0 (''chr1'', ''99'', ''200'', ''+''),
                          ''1'', ''+''] @ [NL])
       = Inr (join TAB [''chr1'', ''100'', ''200'', ''+'', ''chr1'', ''50'', ''150'', ''+'', ''FAKE''])"
proof -
  have h1: "bed_fields example_origin_1 = Inr (''chr1'', ''99'', ''200'', ''+'')"
    by code_simp
  have h2: "py_int (example_origin_1 ! 1) = Some 100"
    by code_simp
  have h3: "\<forall>t \<in> set [example_origin_1 ! 0, example_origin_1 ! 2, example_origin_1 ! 3].
              field_ok t \<and> CHR '';'' \<notin> set t"
    by code_simp
  have h4: "\<forall>t \<in> set [''chr1'', ''49'', ''150'', ''1'', ''+'']. field_ok t"
    by code_simp
  have h5: "py_int ''49'' = Some 49"
    by code_simp
  have e: "[example_origin_1 ! 0, py_str 100, example_origin_1 ! 2, example_origin_1 ! 3,
            ''chr1'', py_str (49 + 1), ''150'', ''+'', ''FAKE'']
           = [''chr1'', ''100'', ''200'', ''+'', ''chr1'', ''50'', ''150'', ''+'', ''FAKE'']"
    by code_simp
  show ?thesis
    using start_round_trip [OF h1 h2 h3 h4 h5, of 0] h1 h2 h3 h4 h5
    by (simp only: e list_all_iff)
qed

lemma normalize_line_error_iff: "(\<exists>e. normalize_line i l = Inl e) \<longleftrightarrow> rejected l"
  by (auto simp: normalize_line_def bed_fields_def rejected_def Let_def
           split: option.splits if_splits)

lemma normalize_lines_error_iff:
  "(\<exists>e. normalize_lines i ls = Inl e) \<longleftrightarrow> (\<exists>l \<in> set ls. rejected l)"
proof (induction ls arbitrary: i)
  case Nil
  then show ?case by simp
next
  case (Cons l ls)
  show ?case
  proof (cases "normalize_line i l")
    case (Inl e)
    then have "rejected l" using normalize_line_error_iff [of i l] by auto
    with Inl show ?thesis by simp
  next
    case (Inr b)
    then have "\<not> rejected l" using normalize_line_error_iff [of i l] by auto
    with Inr Cons [of "Suc i"] show ?thesis by (auto split: sum.splits)
  qed
qed

text \<open>
  Claim C9 (as stated it fails). The normalizer reads the first four fields only and
  parses the start only. A line of four fields whose end is not a number is normalized
  without any error.
\<close>

theorem short_line_accepted_counterexample:
  "normalize_line 0 (join TAB [''chr1'', ''100'', ''abc'', ''+''] @ [NL])
     = Inr (join TAB [''chr1'', ''99'', ''abc'', ''info_0;chr1;99;abc;+'', ''1'', ''+''])"
  by code_simp

lemma normalize_line_accepted:
  assumes "\<not> rejected l"
  shows "normalize_line k l = Inr (normalized k l)"
proof -
  from assms obtain n where n: "py_int (split_on TAB (strip l) ! 1) = Some n"
    and len: "\<not> length (split_on TAB (strip l)) < 4"
    by (auto simp: rejected_def)
  then show ?thesis
    by (simp add: normalize_line_def bed_fields_def normalized_def bed_line_def
                  junction_name_def Let_def)
qed

lemma normalize_lines_accepted:
  "\<forall>l \<in> set ls. \<not> rejected l
     \<Longrightarrow> normalize_lines i ls = Inr (map2 normalized [i ..< i + length ls] ls)"
proof (induction ls arbitrary: i)
  case Nil
  then show ?case by simp
next
  case (Cons l ls)
  then have "normalize_lines (Suc i) ls = Inr (map2 normalized [Suc i ..< Suc i + length ls] ls)"
    by simp
  moreover from Cons.prems have "normalize_line i l = Inr (normalized i l)"
    by (simp add: normalize_line_accepted)
  moreover have "[i ..< i + length (l # ls)] = i # [Suc i ..< Suc i + length ls]"
  proof -
    have "i < i + length (l # ls)" by simp
    then have "[i ..< i + length (l # ls)] = i # [Suc i ..< i + length (l # ls)]"
      by (rule upt_conv_Cons)
    moreover have "i + length (l # ls) = Suc i + length ls" by simp
    ultimately show ?thesis by (simp only:)
  qed
  ultimately show ?case by (simp del: upt_Suc)
qed

text \<open>
  Claim C9, amended. Count the fields of an input line after its leading and trailing
  whitespace, tabs included, has been stripped. The normalizer raises an error
  (IndexError or ValueError) exactly when some line has fewer than four such fields or a
  second field that is not an integer (an optional sign and decimal digits, possibly
  surrounded by whitespace), and the error ends the whole run. When no line is such, no
  record is skipped: the normalizer writes one normalized line per input line, in input
  order, made from the line's first four fields (chrom, start - 1, end, the synthetic
  name, 1, strand), whatever further fields follow and whatever the end field holds.
\<close>

theorem malformed_line_fails_run:
  "((\<exists>e. normalize_lines i ls = Inl e) \<longleftrightarrow> (\<exists>l \<in> set ls. rejected l))
   \<and> ((\<forall>l \<in> set ls. \<not> rejected l)
        \<longrightarrow> normalize_lines i ls = Inr (map2 normalized [i ..< i + length ls] ls))
   \<and> ((\<exists>l \<in> set intropolis. rejected (l @ [NL]))
        \<longrightarrow> (\<exists>e. main liftover sort_cmd intropolis = Inl e))"
proof (intro conjI impI)
  show "(\<exists>e. normalize_lines i ls = Inl e) \<longleftrightarrow> (\<exists>l \<in> set ls. rejected l)"
    by (rule normalize_lines_error_iff)
next
  assume "\<forall>l \<in> set ls. \<not> rejected l"
  then show "normalize_lines i ls = Inr (map2 normalized [i ..< i + length ls] ls)"
    by (rule normalize_lines_accepted)
next
  assume "\<exists>l \<in> set intropolis. rejected (l @ [NL])"
  then have "\<exists>l \<in> set (file_lines intropolis). rejected l"
    by (simp add: file_lines_def)
  then obtain e where "normalize_lines 0 (file_lines intropolis) = Inl e"
    using normalize_lines_error_iff [of 0 "file_lines intropolis"] by blast
  then show "\<exists>e. main liftover sort_cmd intropolis = Inl e"
    by (simp add: main_def)
qed

theorem malformed_line_fails_run_witness:
  "(\<exists>l \<in> set [join TAB example_origin_1, join TAB [''chr1'', ''x'', ''200'', ''+''] ].
      rejected (l @ [NL]))
   \<and> (\<exists>e. normalize_lines 0
            (file_lines [join TAB example_origin_1, join TAB [''chr1'', ''x'', ''200'', ''+''] ])
          = Inl e)
   \<and> (\<exists>e. main (\<lambda>bed. (0, Some [])) (\<lambda>ls. (0, ls))
            [join TAB example_origin_1, join TAB [''chr1'', ''x'', ''200'', ''+''] ] = Inl e)
   \<and> list_all (\<lambda>l. \<not> rejected l)
        (file_lines [join TAB example_origin_1, join TAB [''chr7'', ''-3'', ''abc'', ''+'', ''GT''] ])
   \<and> normalize_lines 5
        (file_lines [join TAB example_origin_1, join TAB [''chr7'', ''-3'', ''abc'', ''+'', ''GT''] ])
       = Inr [join TAB [''chr1'', ''99'', ''200'', ''info_5;chr1;99;200;+'', ''1'', ''+''],
              join TAB [''chr7'', ''-4'', ''abc'', ''info_6;chr7;-4;abc;+'', ''1'', ''+''] ]"
proof -
  let ?bad = "[join TAB example_origin_1, join TAB [''chr1'', ''x'', ''200'', ''+''] ]"
  let ?good = "file_lines [join TAB example_origin_1,
                           join TAB [''chr7'', ''-3'', ''abc'', ''+'', ''GT''] ]"
  have h1: "\<exists>l \<in> set ?bad. rejected (l @ [NL])"
    by code_simp
  have h2: "\<exists>l \<in> set (file_lines ?bad). rejected l"
    by code_simp
  have h3: "\<forall>l \<in> set ?good. \<not> rejected l"
    by code_simp
  have e: "map2 normalized [5 ..< 5 + length ?good] ?good
      = [join TAB [''chr1'', ''99'', ''200'', ''info_5;chr1;99;200;+'', ''1'', ''+''],
         join TAB [''chr7'', ''-4'', ''abc'', ''info_6;chr7;-4;abc;+'', ''1'', ''+''] ]"
    by code_simp
  note bad = malformed_line_fails_run [of 0 "file_lines ?bad" ?bad
               "\<lambda>bed. (0, Some [])" "\<lambda>ls. (0, ls)"]
  note good = malformed_line_fails_run [of 5 ?good "[]" "\<lambda>bed. (0, Some [])" "\<lambda>ls. (0, ls)"]
  from bad h2 have c1: "\<exists>e. normalize_lines 0 (file_lines ?bad) = Inl e" by blast
  from bad h1 have c2: "\<exists>e. main (\<lambda>bed. (0, Some [])) (\<lambda>ls. (0, ls)) ?bad = Inl e" by blast
  from good h3
  have c3: "normalize_lines 5 ?good = Inr (map2 normalized [5 ..< 5 + length ?good] ?good)"
    by blast
  from h3 have h3': "list_all (\<lambda>l. \<not> rejected l) ?good" by (simp only: list_all_iff)
  from h1 c1 c2 h3' c3 show ?thesis by (simp only: e)
qed

section \<open>The exit status of the mapper\<close>

text \<open>
  Claim C4 (the code departs from it). The exit status of the mapper is stored in
  \<open>liftover_process\<close> and never looked at. When the mapper exits with status 1 and
  leaves an empty mapped file, the run goes on through the merge and the sort and prints
  every junction with four NA fields.
\<close>

theorem failed_mapper_run_continues:
  "main (\<lambda>bed. (1, Some [])) (\<lambda>ls. (0, ls)) [join TAB example_origin_1, join TAB example_origin_3]
     = Inr [join TAB (example_origin_1 @ [''NA'', ''NA'', ''NA'', ''NA'']),
            join TAB (example_origin_3 @ [''NA'', ''NA'', ''NA'', ''NA''])]"
  by code_simp

end
